theory Spec2Isabelle
  imports Main "HOL-Library.Sublist"
begin

section \<open>Text\<close>

text \<open>
  The script works on Python \<open>str\<close> values: sequences of Unicode code points. A code
  point is a natural number, a text is a list of them. \<open>lit\<close> turns an ASCII literal
  of the source into such a text. The newline is code point 10.
\<close>

type_synonym codepoint = nat
type_synonym pystr = "codepoint list"

definition lit :: "string \<Rightarrow> pystr" where
  "lit cs = map of_char cs"

abbreviation nl :: codepoint where
  "nl \<equiv> 10"

text \<open>\<open>str(n)\<close> of a non-negative integer, as the f-strings of the script format it.\<close>

fun str_nat :: "nat \<Rightarrow> pystr" where
  "str_nat n = (if n < 10 then [48 + n] else str_nat (n div 10) @ [48 + n mod 10])"

declare str_nat.simps [simp del]

section \<open>The regular expression\<close>

text \<open>
  The pattern of the script is
  \<^verbatim>\<open>(  } catch \([^)]+\) \{\s*\n)(    console\.error\([^\n]+\n)(    res\.status\()\<close>.
  It is built from literals, two negated character sets under \<open>+\<close> and the class
  \<open>\s\<close> under \<open>*\<close>. For a \<open>str\<close> pattern \<open>\s\<close> is the Unicode whitespace of
  \<open>str.isspace\<close>; a negated set also matches the newline.
\<close>

datatype cls = AnyBut codepoint | Space

definition is_space :: "codepoint \<Rightarrow> bool" where
  "is_space c \<longleftrightarrow>
     (9 \<le> c \<and> c \<le> 13) \<or> (28 \<le> c \<and> c \<le> 32) \<or> c = 133 \<or> c = 160 \<or> c = 5760 \<or>
     (8192 \<le> c \<and> c \<le> 8202) \<or> c = 8232 \<or> c = 8233 \<or> c = 8239 \<or> c = 8287 \<or> c = 12288"

fun in_cls :: "cls \<Rightarrow> codepoint \<Rightarrow> bool" where
  "in_cls (AnyBut x) c = (c \<noteq> x)"
| "in_cls Space c = is_space c"

datatype item = Lit pystr | Star cls | Plus cls

text \<open>
  The matcher is a backtracking one: for an item and a text, \<open>item_rests\<close> lists what
  may remain of the text after the item, in the order in which the engine tries the
  alternatives. The quantifiers are greedy, so the longest run comes first.
\<close>

fun item_rests :: "item \<Rightarrow> pystr \<Rightarrow> pystr list" where
  "item_rests (Lit l) s = (if prefix l s then [drop (length l) s] else [])"
| "item_rests (Star c) s =
     map (\<lambda>k. drop k s) (rev [0 ..< Suc (length (takeWhile (in_cls c) s))])"
| "item_rests (Plus c) s =
     map (\<lambda>k. drop k s) (rev [1 ..< Suc (length (takeWhile (in_cls c) s))])"

fun seq_rests :: "item list \<Rightarrow> pystr \<Rightarrow> pystr list" where
  "seq_rests [] s = [s]"
| "seq_rests (i # is) s = concat (map (seq_rests is) (item_rests i s))"

definition group1_rx :: "item list" where
  "group1_rx = [Lit (lit ''  } catch (''), Plus (AnyBut 41), Lit (lit '') {''), Star Space, Lit [nl]]"

definition group2_rx :: "item list" where
  "group2_rx = [Lit (lit ''    console.error(''), Plus (AnyBut nl), Lit [nl]]"

definition group3_rx :: "item list" where
  "group3_rx = [Lit (lit ''    res.status('')]"

text \<open>A match object: the three groups; group 0 is the whole matched span.\<close>

record rmatch =
  group1 :: pystr
  group2 :: pystr
  group3 :: pystr

definition group0 :: "rmatch \<Rightarrow> pystr" where
  "group0 m = group1 m @ group2 m @ group3 m"

text \<open>
  The attempts of the backtracking search at the start of a text, in the order of the
  search: the texts that remain after group 1, after group 2 and after group 3. A match
  of the whole pattern is the first attempt; \<open>match_at\<close> returns the match object and
  the text that follows the match.
\<close>

definition attempts :: "pystr \<Rightarrow> (pystr \<times> pystr \<times> pystr) list" where
  "attempts s =
     [(r1, r2, r3). r1 \<leftarrow> seq_rests group1_rx s, r2 \<leftarrow> seq_rests group2_rx r1,
                    r3 \<leftarrow> seq_rests group3_rx r2]"

definition match_at :: "pystr \<Rightarrow> (rmatch \<times> pystr) option" where
  "match_at s =
     (case attempts s of
        [] \<Rightarrow> None
      | (r1, r2, r3) # _ \<Rightarrow>
          Some (\<lparr>group1 = take (length s - length r1) s,
                 group2 = take (length r1 - length r2) r1,
                 group3 = take (length r2 - length r3) r2\<rparr>, r3))"

section \<open>The replacement and the substitution\<close>

text \<open>
  \<open>replacement\<close> reads and writes the counter \<open>modifications\<close> of the enclosing
  function; here the counter is passed in and returned.
\<close>

definition inserted :: pystr where
  "inserted = lit ''    await logRouteError(error, req).catch(() => {});'' @ [nl]"

definition exempt :: "pystr \<Rightarrow> bool" where
  "exempt full_match \<longleftrightarrow>
     sublist (lit ''logRouteError'') full_match \<or> sublist (lit ''logCriticalError'') full_match"

definition replacement :: "rmatch \<Rightarrow> nat \<Rightarrow> pystr \<times> nat" where
  "replacement m modifications =
     (let catch_line = group1 m; console_line = group2 m; res_line = group3 m;
          full_match = group0 m
      in if exempt full_match then (group0 m, modifications)
         else (catch_line @ console_line @ inserted @ res_line, modifications + 1))"

text \<open>
  The language of the pattern, written out: a match is the literal catch opening, a
  non-empty run \<open>X\<close> without a closing parenthesis, the literal \<open>) {\<close>, a whitespace run
  \<open>W\<close>, a newline, the literal console.error opening, a non-empty run \<open>Y\<close> without a
  newline, a newline and the literal res.status opening.
\<close>

definition shape :: "pystr \<Rightarrow> pystr \<Rightarrow> pystr \<Rightarrow> rmatch" where
  "shape X W Y =
     \<lparr>group1 = lit ''  } catch ('' @ X @ lit '') {'' @ W @ [nl],
      group2 = lit ''    console.error('' @ Y @ [nl],
      group3 = lit ''    res.status(''\<rparr>"

definition shape_ok :: "pystr \<Rightarrow> pystr \<Rightarrow> pystr \<Rightarrow> bool" where
  "shape_ok X W Y \<longleftrightarrow>
     X \<noteq> [] \<and> 41 \<notin> set X \<and> (\<forall>c\<in>set W. is_space c) \<and> Y \<noteq> [] \<and> nl \<notin> set Y"

section \<open>The matcher decides the shape\<close>

lemma in_item_rests_Lit: "r \<in> set (item_rests (Lit l) s) \<longleftrightarrow> s = l @ r"
  by (auto simp: prefix_def)

lemma takeWhile_all_le:
  "(\<forall>x\<in>set p. P x) \<Longrightarrow> length p \<le> length (takeWhile P (p @ r))"
  by (simp add: takeWhile_append2)

lemma take_takeWhile_all:
  "k \<le> length (takeWhile P s) \<Longrightarrow> \<forall>x\<in>set (take k s). P x"
  by (induction s arbitrary: k) (auto simp: take_Cons split: nat.splits if_splits)

lemma set_rests_upt:
  "set (map f (rev [a ..< Suc n])) = f ` {k. a \<le> k \<and> k \<le> n}"
  by (auto simp del: upt_Suc)

lemma in_item_rests_Star:
  "r \<in> set (item_rests (Star c) s) \<longleftrightarrow> (\<exists>p. s = p @ r \<and> (\<forall>x\<in>set p. in_cls c x))"
proof
  assume "r \<in> set (item_rests (Star c) s)"
  then obtain k where k: "k \<le> length (takeWhile (in_cls c) s)" and r: "r = drop k s"
    unfolding item_rests.simps set_rests_upt by auto
  have "s = take k s @ r" using r by simp
  moreover have "\<forall>x\<in>set (take k s). in_cls c x" using k by (rule take_takeWhile_all)
  ultimately show "\<exists>p. s = p @ r \<and> (\<forall>x\<in>set p. in_cls c x)" by blast
next
  assume "\<exists>p. s = p @ r \<and> (\<forall>x\<in>set p. in_cls c x)"
  then obtain p where s: "s = p @ r" and p: "\<forall>x\<in>set p. in_cls c x" by blast
  have "length p \<le> length (takeWhile (in_cls c) s)" using p s takeWhile_all_le by blast
  moreover have "r = drop (length p) s" using s by simp
  ultimately show "r \<in> set (item_rests (Star c) s)" unfolding item_rests.simps set_rests_upt by blast
qed

lemma in_item_rests_Plus:
  "r \<in> set (item_rests (Plus c) s) \<longleftrightarrow> (\<exists>p. s = p @ r \<and> p \<noteq> [] \<and> (\<forall>x\<in>set p. in_cls c x))"
proof
  assume "r \<in> set (item_rests (Plus c) s)"
  then obtain k where k: "k \<le> length (takeWhile (in_cls c) s)" "1 \<le> k" and r: "r = drop k s"
    unfolding item_rests.simps set_rests_upt by auto
  have "s = take k s @ r" using r by simp
  moreover have "\<forall>x\<in>set (take k s). in_cls c x" using k(1) by (rule take_takeWhile_all)
  moreover have "take k s \<noteq> []" using k length_takeWhile_le[of "in_cls c" s] by auto
  ultimately show "\<exists>p. s = p @ r \<and> p \<noteq> [] \<and> (\<forall>x\<in>set p. in_cls c x)" by blast
next
  assume "\<exists>p. s = p @ r \<and> p \<noteq> [] \<and> (\<forall>x\<in>set p. in_cls c x)"
  then obtain p where s: "s = p @ r" and p: "\<forall>x\<in>set p. in_cls c x" and ne: "p \<noteq> []" by blast
  have "length p \<le> length (takeWhile (in_cls c) s)" using p s takeWhile_all_le by blast
  moreover have "r = drop (length p) s" using s by simp
  moreover have "1 \<le> length p" using ne by (cases p) auto
  ultimately show "r \<in> set (item_rests (Plus c) s)" unfolding item_rests.simps set_rests_upt by blast
qed

lemma in_seq_rests_Nil: "r \<in> set (seq_rests [] s) \<longleftrightarrow> r = s"
  by auto

lemma in_seq_rests_Cons:
  "r \<in> set (seq_rests (i # is) s) \<longleftrightarrow> (\<exists>r'. r' \<in> set (item_rests i s) \<and> r \<in> set (seq_rests is r'))"
  by auto

lemmas in_rests = in_seq_rests_Nil in_seq_rests_Cons in_item_rests_Lit in_item_rests_Star
  in_item_rests_Plus

lemma in_group1:
  "r \<in> set (seq_rests group1_rx s) \<longleftrightarrow>
     (\<exists>X W. X \<noteq> [] \<and> 41 \<notin> set X \<and> (\<forall>c\<in>set W. is_space c) \<and>
        s = lit ''  } catch ('' @ X @ lit '') {'' @ W @ [nl] @ r)"
  unfolding group1_rx_def in_rests by (simp add: Ball_def) metis

lemma in_group2:
  "r \<in> set (seq_rests group2_rx s) \<longleftrightarrow>
     (\<exists>Y. Y \<noteq> [] \<and> nl \<notin> set Y \<and> s = lit ''    console.error('' @ Y @ [nl] @ r)"
  unfolding group2_rx_def in_rests by (simp add: Ball_def) metis

lemma in_group3:
  "r \<in> set (seq_rests group3_rx s) \<longleftrightarrow> s = lit ''    res.status('' @ r"
  unfolding group3_rx_def in_rests by blast

lemma in_attempts:
  "(r1, r2, r3) \<in> set (attempts s) \<longleftrightarrow>
     r1 \<in> set (seq_rests group1_rx s) \<and> r2 \<in> set (seq_rests group2_rx r1) \<and>
     r3 \<in> set (seq_rests group3_rx r2)"
  unfolding attempts_def by auto

lemma space_run_unique:
  assumes "\<forall>c\<in>set W. is_space c" "\<forall>c\<in>set W'. is_space c"
    and "W @ [nl] @ lit ''    console.error('' @ a = W' @ [nl] @ lit ''    console.error('' @ a'"
  shows "W = W' \<and> a = a'"
proof -
  let ?t = "[nl, 32, 32, 32, 32]"
  have sp: "\<forall>c\<in>set ?t. is_space c" by (simp add: is_space_def)
  have e: "W @ [nl] @ lit ''    console.error('' @ a = (W @ ?t) @ 99 # lit ''onsole.error('' @ a" for W a
    by (simp add: lit_def)
  have tw: "takeWhile is_space ((W @ ?t) @ 99 # b) = W @ ?t" if "\<forall>c\<in>set W. is_space c" for W b
    using that by (simp add: takeWhile_append2 is_space_def)
  have "W @ ?t = W' @ ?t"
    using assms(3) tw[OF assms(1)] tw[OF assms(2)] unfolding e by metis
  then have "W = W'" by simp
  with assms(3) show ?thesis by simp
qed

lemma in_attempts_shape:
  "(r1, r2, r3) \<in> set (attempts s) \<longleftrightarrow>
     (\<exists>X W Y. shape_ok X W Y \<and> s = group0 (shape X W Y) @ r3 \<and>
        r2 = group3 (shape X W Y) @ r3 \<and> r1 = group2 (shape X W Y) @ r2)"
  unfolding in_attempts in_group1 in_group2 in_group3 shape_ok_def shape_def group0_def
  by (simp) blast

lemma run_unique:
  assumes "x \<notin> set p" "x \<notin> set p'" "p @ x # a = p' @ x # a'"
  shows "p = p' \<and> a = a'"
proof -
  have "takeWhile (\<lambda>c. c \<noteq> x) (q @ x # b) = q" if "x \<notin> set q" for q b
    using that by (induction q) auto
  from this[OF assms(1), of a] this[OF assms(2), of a'] assms(3) have "p = p'" by simp
  with assms(3) show ?thesis by simp
qed

lemma shape_unique:
  assumes "shape_ok X W Y" "shape_ok X' W' Y'"
    and "group0 (shape X W Y) @ r = group0 (shape X' W' Y') @ r'"
  shows "X = X' \<and> W = W' \<and> Y = Y' \<and> r = r'"
proof -
  let ?A = "lit ''  } catch (''" and ?CE = "lit ''    console.error(''" and ?RS = "lit ''    res.status(''"
  have 1: "X @ 41 # (32 # 123 # W @ [nl] @ ?CE @ Y @ [nl] @ ?RS @ r)
         = X' @ 41 # (32 # 123 # W' @ [nl] @ ?CE @ Y' @ [nl] @ ?RS @ r')"
    using assms(3) by (simp add: shape_def group0_def lit_def)
  have nX: "41 \<notin> set X" "41 \<notin> set X'" and nY: "nl \<notin> set Y" "nl \<notin> set Y'"
    and sW: "\<forall>c\<in>set W. is_space c" "\<forall>c\<in>set W'. is_space c"
    using assms(1,2) by (simp_all add: shape_ok_def)
  note a = run_unique[OF nX 1]
  have X: "X = X'" using a by simp
  have 2: "W @ [nl] @ ?CE @ (Y @ [nl] @ ?RS @ r) = W' @ [nl] @ ?CE @ (Y' @ [nl] @ ?RS @ r')"
    using a by simp
  note b = space_run_unique[OF sW 2]
  have W: "W = W'" using b by simp
  have 3: "Y @ nl # (?RS @ r) = Y' @ nl # (?RS @ r')" using b by simp
  note c = run_unique[OF nY 3]
  have "Y = Y' \<and> r = r'" using c by simp
  with X W show ?thesis by simp
qed

lemma match_at_iff:
  "match_at s = Some (m, rest) \<longleftrightarrow>
     (\<exists>X W Y. shape_ok X W Y \<and> m = shape X W Y \<and> s = group0 m @ rest)"
proof
  assume "match_at s = Some (m, rest)"
  then obtain r1 r2 r3 xs where L: "attempts s = (r1, r2, r3) # xs"
    and m: "m = \<lparr>group1 = take (length s - length r1) s,
                 group2 = take (length r1 - length r2) r1,
                 group3 = take (length r2 - length r3) r2\<rparr>" and r: "rest = r3"
    by (auto simp: match_at_def attempts_def split: list.splits)
  have "(r1, r2, r3) \<in> set (attempts s)" using L by simp
  then obtain X W Y where ok: "shape_ok X W Y" and s: "s = group0 (shape X W Y) @ r3"
    and r2: "r2 = group3 (shape X W Y) @ r3" and r1: "r1 = group2 (shape X W Y) @ r2"
    unfolding in_attempts_shape by blast
  have "m = shape X W Y"
    unfolding m by (simp add: s r1 r2 shape_def group0_def)
  then show "\<exists>X W Y. shape_ok X W Y \<and> m = shape X W Y \<and> s = group0 m @ rest"
    using ok s r by blast
next
  assume "\<exists>X W Y. shape_ok X W Y \<and> m = shape X W Y \<and> s = group0 m @ rest"
  then obtain X W Y where ok: "shape_ok X W Y" and m: "m = shape X W Y" and s: "s = group0 m @ rest"
    by blast
  have "(group2 m @ group3 m @ rest, group3 m @ rest, rest) \<in> set (attempts s)"
    unfolding in_attempts_shape using ok m s by blast
  then obtain r1 r2 r3 xs where L: "attempts s = (r1, r2, r3) # xs"
    by (cases "attempts s") auto
  then have "(r1, r2, r3) \<in> set (attempts s)" by simp
  then obtain X' W' Y' where ok': "shape_ok X' W' Y'" and s': "s = group0 (shape X' W' Y') @ r3"
    and r2: "r2 = group3 (shape X' W' Y') @ r3" and r1: "r1 = group2 (shape X' W' Y') @ r2"
    unfolding in_attempts_shape by blast
  have u: "X' = X \<and> W' = W \<and> Y' = Y \<and> r3 = rest"
    using shape_unique[OF ok' ok] s s' m by simp
  have "\<lparr>group1 = take (length s - length r1) s,
                 group2 = take (length r1 - length r2) r1,
                 group3 = take (length r2 - length r3) r2\<rparr> = shape X' W' Y'"
    by (simp add: s' r1 r2 shape_def group0_def)
  then show "match_at s = Some (m, rest)"
    using L u m by (simp add: match_at_def attempts_def)
qed

lemma match_at_shorter:
  assumes "match_at s = Some (m, rest)"
  shows "length rest < length s"
proof -
  obtain X W Y where "m = shape X W Y" and "s = group0 m @ rest"
    using assms unfolding match_at_iff by blast
  then show ?thesis by (simp add: shape_def group0_def lit_def)
qed

section \<open>The substitution loop\<close>

text \<open>
  \<open>re.sub(pattern, replacement, content)\<close>: the text is scanned from left to right.
  Where the pattern matches, the replacement function is called on the match, its
  result is appended and the scan goes on after the match; elsewhere one code point is
  copied and the scan moves by one. The pattern matches no empty text. The counter is
  threaded through the calls of the replacement function.
\<close>

function sub_loop :: "pystr \<Rightarrow> nat \<Rightarrow> pystr \<times> nat" where
  "sub_loop s modifications =
     (case match_at s of
        Some (m, rest) \<Rightarrow>
          (let (r, modifications') = replacement m modifications;
               (out, modifications'') = sub_loop rest modifications'
           in (r @ out, modifications''))
      | None \<Rightarrow>
          (case s of
             [] \<Rightarrow> ([], modifications)
           | c # cs \<Rightarrow>
               (let (out, modifications') = sub_loop cs modifications
                in (c # out, modifications'))))"
  by pat_completeness auto
termination
  by (relation "measure (\<lambda>(s, n). length s)") (auto dest: match_at_shorter)

declare sub_loop.simps [simp del]

text \<open>
  The same scan as \<open>re.finditer\<close> reports it: the matches, and between them the code
  points at which no match starts.
\<close>

datatype segment = Copy codepoint | Occ rmatch

function scan :: "pystr \<Rightarrow> segment list" where
  "scan s =
     (case match_at s of
        Some (m, rest) \<Rightarrow> Occ m # scan rest
      | None \<Rightarrow> (case s of [] \<Rightarrow> [] | c # cs \<Rightarrow> Copy c # scan cs))"
  by pat_completeness auto
termination
  by (relation "measure length") (auto dest: match_at_shorter)

declare scan.simps [simp del]

fun raw :: "segment \<Rightarrow> pystr" where
  "raw (Copy c) = [c]"
| "raw (Occ m) = group0 m"

fun emit :: "segment \<Rightarrow> pystr" where
  "emit (Copy c) = [c]"
| "emit (Occ m) = fst (replacement m 0)"

fun modified :: "segment \<Rightarrow> bool" where
  "modified (Copy c) = False"
| "modified (Occ m) = (\<not> exempt (group0 m))"

section \<open>Files, output and the program\<close>

text \<open>
  The world of the script: the files it can open, as the texts that \<open>read\<close> returns
  and \<open>write\<close> takes, the paths that cannot be opened for reading or for writing, the
  standard output, and the record of the reads and writes that were done. A file is
  the text that the script works on: what \<open>open(filepath, 'r', encoding='utf-8')\<close> and
  \<open>read\<close> deliver after decoding. Opening a missing file raises \<open>FileNotFoundError\<close>,
  opening a file without the permission raises \<open>PermissionError\<close>; an exception leaves
  the function at once. Opening for writing fails before the file is touched.
\<close>

datatype error = FileNotFoundError | PermissionError

datatype io_op = ReadOp pystr | WriteOp pystr pystr

record world =
  files :: "pystr \<rightharpoonup> pystr"
  unreadable :: "pystr set"
  readonly :: "pystr set"
  stdout :: pystr
  ops :: "io_op list"

definition read_file :: "pystr \<Rightarrow> world \<Rightarrow> (error + pystr) \<times> world" where
  "read_file filepath w =
     (case files w filepath of
        None \<Rightarrow> (Inl FileNotFoundError, w)
      | Some content \<Rightarrow>
          if filepath \<in> unreadable w then (Inl PermissionError, w)
          else (Inr content, w\<lparr>ops := ops w @ [ReadOp filepath]\<rparr>))"

definition write_file :: "pystr \<Rightarrow> pystr \<Rightarrow> world \<Rightarrow> (error + unit) \<times> world" where
  "write_file filepath content w =
     (if filepath \<in> readonly w then (Inl PermissionError, w)
      else (Inr (), w\<lparr>files := (files w)(filepath \<mapsto> content),
                       ops := ops w @ [WriteOp filepath content]\<rparr>))"

definition print :: "pystr \<Rightarrow> world \<Rightarrow> world" where
  "print text w = w\<lparr>stdout := stdout w @ text @ [nl]\<rparr>"

definition add_error_logging_to_file :: "pystr \<Rightarrow> world \<Rightarrow> (error + nat) \<times> world" where
  "add_error_logging_to_file filepath w =
     (case read_file filepath w of
        (Inl e, w1) \<Rightarrow> (Inl e, w1)
      | (Inr content, w1) \<Rightarrow>
          (let original_content = content;
               (content', modifications) = sub_loop content 0
           in if content' \<noteq> original_content then
                (case write_file filepath content' w1 of
                   (Inl e, w2) \<Rightarrow> (Inl e, w2)
                 | (Inr _, w2) \<Rightarrow>
                     (Inr modifications,
                      print ([9989] @ lit '' Added error logging to '' @ str_nat modifications @
                             lit '' catch blocks in '' @ filepath) w2))
              else (Inr 0,
                    print ([9197, 65039] @ lit ''  No changes needed for '' @ filepath) w1)))"

text \<open>
  The program: its result is the exit status, or the exception that ends it when a file
  cannot be opened.
\<close>

datatype outcome = Exit nat | Uncaught error

definition main :: "pystr list \<Rightarrow> world \<Rightarrow> outcome \<times> world" where
  "main argv w =
     (if length argv < 2 then
        (Exit 1, print (lit ''Usage: python3 add-error-logging.py <filepath>'') w)
      else
        (let filepath = argv ! 1 in
         case add_error_logging_to_file filepath w of
           (Inl e, w1) \<Rightarrow> (Uncaught e, w1)
         | (Inr count, w1) \<Rightarrow>
             (Exit 0, print ([nl] @ lit ''Total modifications: '' @ str_nat count) w1)))"

section \<open>Example texts\<close>

text \<open>
  The texts of the example scenarios: a catch block of the three-line shape, the same
  block after the insertion, a block that already calls \<open>logRouteError\<close>, a block with a
  blank line after the catch header, a block whose header is indented by four spaces, and
  a block whose header lacks the closing brace. \<open>tail_text\<close> is what follows the match
  in each of them; \<open>world_with p s\<close> is a world with the one file \<open>p\<close> of content \<open>s\<close>.
\<close>

definition scenario1 :: pystr where
  "scenario1 = lit ''  } catch (error) {'' @ [nl] @ lit ''    console.error('x');'' @ [nl] @
               lit ''    res.status(500).send();'' @ [nl]"

definition scenario1_match :: rmatch where
  "scenario1_match = \<lparr>group1 = lit ''  } catch (error) {'' @ [nl],
                       group2 = lit ''    console.error('x');'' @ [nl],
                       group3 = lit ''    res.status(''\<rparr>"

definition scenario1_out :: pystr where
  "scenario1_out = lit ''  } catch (error) {'' @ [nl] @ lit ''    console.error('x');'' @ [nl] @
               lit ''    await logRouteError(error, req).catch(() => {});'' @ [nl] @
               lit ''    res.status(500).send();'' @ [nl]"

definition scenario3 :: pystr where
  "scenario3 = lit ''  } catch (error) {'' @ [nl] @
               lit ''    console.error(error); logRouteError(error, req);'' @ [nl] @
               lit ''    res.status(500).send();'' @ [nl]"

definition scenario3_match :: rmatch where
  "scenario3_match = \<lparr>group1 = lit ''  } catch (error) {'' @ [nl],
                       group2 = lit ''    console.error(error); logRouteError(error, req);'' @ [nl],
                       group3 = lit ''    res.status(''\<rparr>"

definition blank_line_text :: pystr where
  "blank_line_text = lit ''  } catch (error) {'' @ [nl] @ [nl] @ lit ''    console.error('x');'' @ [nl] @
               lit ''    res.status(500).send();'' @ [nl]"

definition indented_text :: pystr where
  "indented_text = lit ''    } catch (error) {'' @ [nl] @ lit ''    console.error('x');'' @ [nl] @
               lit ''    res.status(500).send();'' @ [nl]"

definition no_brace_text :: pystr where
  "no_brace_text = lit ''  catch (error) {'' @ [nl] @ lit ''    console.error('x');'' @ [nl] @
               lit ''    res.status(500).send();'' @ [nl]"

definition tail_text :: pystr where
  "tail_text = lit ''500).send();'' @ [nl]"

definition world_with :: "pystr \<Rightarrow> pystr \<Rightarrow> world" where
  "world_with p s = \<lparr>files = [p \<mapsto> s], unreadable = {}, readonly = {}, stdout = [], ops = []\<rparr>"

definition routes_js :: pystr where
  "routes_js = lit ''routes.js''"

definition blank_line_match :: rmatch where
  "blank_line_match = \<lparr>group1 = lit ''  } catch (error) {'' @ [nl] @ [nl],
                        group2 = lit ''    console.error('x');'' @ [nl],
                        group3 = lit ''    res.status(''\<rparr>"

section \<open>Auxiliary notions\<close>

text \<open>
  Notions for the proofs. \<open>no_match_in u v\<close>: in the text \<open>u @ v\<close> no match of the
  pattern starts inside \<open>u\<close>. \<open>nl_ok u v\<close>: in the text \<open>u @ v\<close> no newline of \<open>u\<close> is
  followed by the inserted line. \<open>aug s t\<close>: the text \<open>t\<close> is \<open>s\<close> with copies of the
  inserted line added, each right after a newline.
\<close>

definition no_match_in :: "pystr \<Rightarrow> pystr \<Rightarrow> bool" where
  "no_match_in u v \<longleftrightarrow> (\<forall>a b. u = a @ b \<and> b \<noteq> [] \<longrightarrow> match_at (b @ v) = None)"

definition nl_ok :: "pystr \<Rightarrow> pystr \<Rightarrow> bool" where
  "nl_ok u v \<longleftrightarrow> (\<forall>a b. u = a @ nl # b \<longrightarrow> \<not> prefix inserted (b @ v))"

inductive aug :: "pystr \<Rightarrow> pystr \<Rightarrow> bool" where
  aug_Nil: "aug [] []"
| aug_Copy: "aug s t \<Longrightarrow> aug (c # s) (c # t)"
| aug_Ins: "aug s t \<Longrightarrow> aug (nl # s) (nl # inserted @ t)"

text \<open>
  The lines of a text, as \<open>text.split('\n')\<close> gives them: the notion of line in the claim
  that the transformation only inserts lines. \<open>inserted_line\<close> is the inserted line
  without its newline.
\<close>

fun lines_of :: "pystr \<Rightarrow> pystr list" where
  "lines_of [] = [[]]"
| "lines_of (c # cs) =
     (if c = nl then [] # lines_of cs
      else (case lines_of cs of [] \<Rightarrow> [[c]] | l # ls \<Rightarrow> (c # l) # ls))"

definition inserted_line :: pystr where
  "inserted_line = lit ''    await logRouteError(error, req).catch(() => {});''"

section \<open>The loop and the scan\<close>

lemma match_at_Nil: "match_at [] = None"
proof (cases "match_at []")
  case (Some a)
  then show ?thesis using match_at_shorter[of "[]" "fst a" "snd a"] by simp
qed simp

lemma scan_Nil [simp]: "scan [] = []"
  by (simp add: scan.simps match_at_Nil)

lemma scan_Copy: "match_at (c # cs) = None \<Longrightarrow> scan (c # cs) = Copy c # scan cs"
  by (simp add: scan.simps)

lemma scan_Occ: "match_at s = Some (m, rest) \<Longrightarrow> scan s = Occ m # scan rest"
  by (simp add: scan.simps)

lemma sub_loop_Nil [simp]: "sub_loop [] n = ([], n)"
  by (simp add: sub_loop.simps match_at_Nil)

lemma sub_loop_Copy:
  "match_at (c # cs) = None \<Longrightarrow>
   sub_loop (c # cs) n = (c # fst (sub_loop cs n), snd (sub_loop cs n))"
  by (simp add: sub_loop.simps[of "c # cs"] split: prod.splits)

lemma sub_loop_Occ:
  "match_at s = Some (m, rest) \<Longrightarrow>
   sub_loop s n = (fst (replacement m n) @ fst (sub_loop rest (snd (replacement m n))),
                   snd (sub_loop rest (snd (replacement m n))))"
  by (simp add: sub_loop.simps[of s] split: prod.splits)

lemma replacement_eq:
  "replacement m n = (fst (replacement m 0), n + (if exempt (group0 m) then 0 else 1))"
  by (simp add: replacement_def)

lemma sub_loop_scan:
  "sub_loop s n = (concat (map emit (scan s)), n + length (filter modified (scan s)))"
proof (induction s n rule: sub_loop.induct)
  case (1 s n)
  show ?case
  proof (cases "match_at s")
    case None
    show ?thesis
    proof (cases s)
      case Nil
      then show ?thesis by simp
    next
      case (Cons c cs)
      with None 1(1)[OF None Cons] show ?thesis
        by (simp add: sub_loop_Copy scan_Copy)
    qed
  next
    case (Some a)
    obtain m rest where a: "a = (m, rest)" by (cases a)
    obtain r n' where rp: "replacement m n = (r, n')" by (cases "replacement m n")
    have r: "r = fst (replacement m 0)" and n': "n' = n + (if exempt (group0 m) then 0 else 1)"
      using rp replacement_eq[of m n] by simp_all
    have IH: "sub_loop rest n' = (concat (map emit (scan rest)), n' + length (filter modified (scan rest)))"
      using 1(2)[OF Some[unfolded a] refl rp[symmetric] refl] .
    show ?thesis
      using Some a rp IH r n' by (simp add: sub_loop_Occ scan_Occ)
  qed
qed

lemma scan_raw: "concat (map raw (scan s)) = s"
proof (induction s rule: scan.induct)
  case (1 s)
  show ?case
  proof (cases "match_at s")
    case None
    show ?thesis
    proof (cases s)
      case Nil
      then show ?thesis by simp
    next
      case (Cons c cs)
      with None 1(1)[OF None Cons] show ?thesis by (simp add: scan_Copy)
    qed
  next
    case (Some a)
    obtain m rest where a: "a = (m, rest)" by (cases a)
    have "s = group0 m @ rest" using Some a match_at_iff by blast
    with 1(2)[OF Some[unfolded a] refl] Some a show ?thesis by (simp add: scan_Occ)
  qed
qed

section \<open>Positions of the scan\<close>

lemma scan_cases:
  obtains (Nil) "s = []" "scan s = []"
  | (Copy) c cs where "s = c # cs" "match_at s = None" "scan s = Copy c # scan cs"
  | (Occ) m rest where "match_at s = Some (m, rest)" "s = group0 m @ rest" "scan s = Occ m # scan rest"
proof (cases "match_at s")
  case None
  then show ?thesis
    by (cases s) (auto intro: that simp: scan_Copy)
next
  case (Some a)
  obtain m rest where a: "a = (m, rest)" by (cases a)
  have "s = group0 m @ rest" using Some a match_at_iff by blast
  then show ?thesis using Some a that(3) by (simp add: scan_Occ)
qed

lemma scan_suffix: "scan s = pre @ post \<Longrightarrow> scan (concat (map raw post)) = post"
proof (induction pre arbitrary: s)
  case Nil
  then show ?case using scan_raw[of s] by simp
next
  case (Cons x pre)
  show ?case
  proof (cases s rule: scan_cases)
    case Nil
    with Cons.prems show ?thesis by simp
  next
    case (Copy c cs)
    with Cons.prems have "scan cs = pre @ post" by simp
    then show ?thesis by (rule Cons.IH)
  next
    case (Occ m rest)
    with Cons.prems have "scan rest = pre @ post" by simp
    then show ?thesis by (rule Cons.IH)
  qed
qed

lemma scan_at_Occ:
  assumes "scan s = pre @ Occ m # post"
  shows "match_at (group0 m @ concat (map raw post)) = Some (m, concat (map raw post))"
proof -
  let ?t = "group0 m @ concat (map raw post)"
  have t: "scan ?t = Occ m # post" using scan_suffix[OF assms] by simp
  show ?thesis
  proof (cases ?t rule: scan_cases)
    case Nil
    with t show ?thesis by simp
  next
    case (Copy c cs)
    with t show ?thesis by simp
  next
    case (Occ m' rest)
    with t have "m' = m" "scan rest = post" by simp_all
    then have "rest = concat (map raw post)" using scan_raw[of rest] by simp
    with Occ(1) \<open>m' = m\<close> show ?thesis by simp
  qed
qed

lemma scan_at_Copy:
  assumes "scan s = pre @ Copy c # post"
  shows "match_at (c # concat (map raw post)) = None"
proof -
  let ?t = "c # concat (map raw post)"
  have t: "scan ?t = Copy c # post" using scan_suffix[OF assms] by simp
  show ?thesis
  proof (cases ?t rule: scan_cases)
    case Nil
    then show ?thesis by simp
  next
    case (Copy c cs)
    then show ?thesis by simp
  next
    case (Occ m' rest)
    with t show ?thesis by simp
  qed
qed

lemma scan_Occ_shape:
  assumes "Occ m \<in> set (scan s)"
  shows "\<exists>X W Y. shape_ok X W Y \<and> m = shape X W Y"
proof -
  obtain pre post where "scan s = pre @ Occ m # post"
    using assms by (meson split_list)
  from scan_at_Occ[OF this] show ?thesis unfolding match_at_iff by blast
qed

lemma emit_unmodified: "\<not> modified seg \<Longrightarrow> emit seg = raw seg"
  by (cases seg) (simp_all add: replacement_def)

lemma emit_modified:
  "modified (Occ m) \<Longrightarrow> emit (Occ m) = group1 m @ group2 m @ inserted @ group3 m"
  by (simp add: replacement_def)

lemma length_emit:
  "length (emit seg) = length (raw seg) + (if modified seg then length inserted else 0)"
  by (cases seg) (simp_all add: replacement_def group0_def)

lemma length_emits:
  "length (concat (map emit segs)) =
     length (concat (map raw segs)) + length inserted * length (filter modified segs)"
  by (induction segs) (simp_all add: length_emit)

lemma length_sub_loop:
  "length (fst (sub_loop s n)) = length s + length inserted * (snd (sub_loop s n) - n)"
  using length_emits[of "scan s"] by (simp add: sub_loop_scan scan_raw)

lemma emits_unmodified:
  "\<forall>seg\<in>set segs. \<not> modified seg \<Longrightarrow> concat (map emit segs) = concat (map raw segs)"
  by (induction segs) (simp_all add: emit_unmodified)

lemma sub_loop_unmodified:
  assumes "\<forall>seg\<in>set (scan s). \<not> modified seg"
  shows "sub_loop s n = (s, n)"
proof -
  have "filter modified (scan s) = []" using assms by (simp add: filter_empty_conv)
  then show ?thesis using emits_unmodified[OF assms] by (simp add: sub_loop_scan scan_raw)
qed

lemma length_inserted: "length inserted = 53"
  by (simp add: inserted_def lit_def)

lemma count_zero_iff: "snd (sub_loop s 0) = 0 \<longleftrightarrow> fst (sub_loop s 0) = s"
proof
  assume "snd (sub_loop s 0) = 0"
  then have "filter modified (scan s) = []" by (simp add: sub_loop_scan)
  then have "\<forall>seg\<in>set (scan s). \<not> modified seg" by (simp add: filter_empty_conv)
  then show "fst (sub_loop s 0) = s" by (simp add: sub_loop_unmodified)
next
  assume "fst (sub_loop s 0) = s"
  then have "length s = length s + length inserted * (snd (sub_loop s 0) - 0)"
    using length_sub_loop[of s 0] by simp
  then show "snd (sub_loop s 0) = 0" by (simp add: length_inserted)
qed

lemma scan_Occ_sublist: 
  assumes "Occ m \<in> set (scan s)"
  shows "sublist (group0 m) s"
proof -
  obtain pre post where sp: "scan s = pre @ Occ m # post"
    using assms by (meson split_list)
  have "s = concat (map raw pre) @ group0 m @ concat (map raw post)"
    using scan_raw[of s] unfolding sp by simp
  then show ?thesis unfolding sublist_def by blast
qed

lemma match_at_shapeI:
  "shape_ok X W Y \<Longrightarrow> s = group0 (shape X W Y) @ rest \<Longrightarrow> m = shape X W Y \<Longrightarrow>
   match_at s = Some (m, rest)"
  unfolding match_at_iff by blast

lemma match_at_prefix:
  "match_at s = Some (m, rest) \<Longrightarrow> prefix (lit ''  } catch ('') s"
  unfolding match_at_iff by (auto simp: shape_def group0_def)

lemma match_at_no_prefix:
  "\<not> prefix (lit ''  } catch ('') s \<Longrightarrow> match_at s = None"
  using match_at_prefix by (cases "match_at s") auto

lemma scan_skip:
  "\<not> prefix (lit ''  } catch ('') (c # cs) \<Longrightarrow> scan (c # cs) = Copy c # scan cs"
  by (simp add: scan_Copy match_at_no_prefix)

lemma sub_loop_skip:
  "\<not> prefix (lit ''  } catch ('') (c # cs) \<Longrightarrow>
   sub_loop (c # cs) n = (c # fst (sub_loop cs n), snd (sub_loop cs n))"
  by (simp add: sub_loop_Copy match_at_no_prefix)

lemma scan_tail_text: "scan tail_text = map Copy tail_text"
  by (simp add: tail_text_def lit_def scan_skip)

lemma scenario1_m: "match_at scenario1 = Some (scenario1_match, tail_text)"
  by (rule match_at_shapeI[of "lit ''error''" "[]" "lit '''x');''"])
    (simp_all add: shape_ok_def shape_def group0_def lit_def scenario1_def scenario1_match_def tail_text_def)

lemma scenario1_scan: "scan scenario1 = Occ scenario1_match # map Copy tail_text"
  by (simp add: scan_Occ[OF scenario1_m] scan_tail_text)

lemma scenario3_m: "match_at scenario3 = Some (scenario3_match, tail_text)"
  by (rule match_at_shapeI[of "lit ''error''" "[]" "lit ''error); logRouteError(error, req);''"])
    (simp_all add: shape_ok_def shape_def group0_def lit_def scenario3_def scenario3_match_def tail_text_def)

lemma scenario3_scan: "scan scenario3 = Occ scenario3_match # map Copy tail_text"
  by (simp add: scan_Occ[OF scenario3_m] scan_tail_text)

lemma scenario1_not_exempt: "\<not> exempt (group0 scenario1_match)"
  by (simp add: exempt_def group0_def scenario1_match_def lit_def sublist_code)

lemma scenario3_exempt: "exempt (group0 scenario3_match)"
  by (simp add: exempt_def group0_def scenario3_match_def lit_def sublist_code)

lemma emit_Copies [simp]: "concat (map (emit \<circ> Copy) xs) = xs"
  by (induction xs) simp_all

lemma raw_Copies [simp]: "concat (map (raw \<circ> Copy) xs) = xs"
  by (induction xs) simp_all

lemma modified_Copies [simp]: "filter (modified \<circ> Copy) xs = []"
  by (induction xs) simp_all

lemma scan_split_raw:
  "scan s = pre @ seg # post \<Longrightarrow> s = concat (map raw pre) @ raw seg @ concat (map raw post)"
  using scan_raw[of s] by simp

lemma add_error_logging_result:
  assumes "files w p = Some s" "p \<notin> unreadable w"
  shows "add_error_logging_to_file p w =
     (if fst (sub_loop s 0) \<noteq> s then
        (if p \<in> readonly w then (Inl PermissionError, w\<lparr>ops := ops w @ [ReadOp p]\<rparr>)
         else (Inr (snd (sub_loop s 0)),
               w\<lparr>files := (files w)(p \<mapsto> fst (sub_loop s 0)),
                 stdout := stdout w @ [9989] @ lit '' Added error logging to '' @
                           str_nat (snd (sub_loop s 0)) @ lit '' catch blocks in '' @ p @ [nl],
                 ops := ops w @ [ReadOp p, WriteOp p (fst (sub_loop s 0))]\<rparr>))
      else (Inr 0, w\<lparr>stdout := stdout w @ [9197, 65039] @ lit ''  No changes needed for '' @ p @ [nl],
                     ops := ops w @ [ReadOp p]\<rparr>))"
  using assms
  by (simp add: add_error_logging_to_file_def read_file_def write_file_def print_def
      case_prod_beta)

lemma add_error_logging_unreadable:
  assumes "files w p = Some s" "p \<in> unreadable w"
  shows "add_error_logging_to_file p w = (Inl PermissionError, w)"
  using assms by (simp add: add_error_logging_to_file_def read_file_def)

lemma add_error_logging_Inr:
  assumes "files w p = Some s" "add_error_logging_to_file p w = (Inr k, w')"
  shows "k = snd (sub_loop s 0) \<and>
         (if k = 0 then files w' = files w \<and> ops w' = ops w @ [ReadOp p]
          else files w' = (files w)(p \<mapsto> fst (sub_loop s 0)) \<and>
               ops w' = ops w @ [ReadOp p, WriteOp p (fst (sub_loop s 0))])"
proof (cases "p \<in> unreadable w")
  case True
  with assms add_error_logging_unreadable show ?thesis by simp
next
  case False
  show ?thesis
  proof (cases "fst (sub_loop s 0) = s")
    case True
    then have "snd (sub_loop s 0) = 0" by (simp add: count_zero_iff)
    with True assms add_error_logging_result[OF assms(1) False] show ?thesis by auto
  next
    case ne: False
    then have "snd (sub_loop s 0) \<noteq> 0" by (simp add: count_zero_iff)
    with ne assms add_error_logging_result[OF assms(1) False] show ?thesis
      by (auto split: if_splits)
  qed
qed

lemma scenario1_sub: "sub_loop scenario1 0 = (scenario1_out, 1)"
  using scenario1_not_exempt
  by (simp add: sub_loop_scan scenario1_scan replacement_def inserted_def filter_map
      scenario1_match_def scenario1_out_def tail_text_def lit_def)

lemma scenario3_sub: "sub_loop scenario3 0 = (scenario3, 0)"
  using scenario3_exempt
  by (simp add: sub_loop_scan scenario3_scan replacement_def filter_map)
     (simp add: scenario3_match_def scenario3_def tail_text_def group0_def lit_def)

lemma scenario1_changed: "scenario1_out \<noteq> scenario1"
  by (simp add: scenario1_out_def scenario1_def lit_def)

lemma blank_line_m: "match_at blank_line_text = Some (blank_line_match, tail_text)"
  by (rule match_at_shapeI[of "lit ''error''" "[nl]" "lit '''x');''"])
    (simp_all add: shape_ok_def shape_def group0_def lit_def blank_line_text_def
      blank_line_match_def tail_text_def is_space_def)

lemma blank_line_scan: "scan blank_line_text = Occ blank_line_match # map Copy tail_text"
  by (simp add: scan_Occ[OF blank_line_m] scan_tail_text)

lemma blank_line_not_exempt: "\<not> exempt (group0 blank_line_match)"
  by (simp add: exempt_def group0_def blank_line_match_def lit_def sublist_code)

lemma indented_scan:
  "scan indented_text = [Copy 32, Copy 32] @ Occ scenario1_match # map Copy tail_text"
proof -
  have e: "indented_text = 32 # 32 # scenario1"
    by (simp add: indented_text_def scenario1_def lit_def)
  have n1: "\<not> prefix (lit ''  } catch ('') (32 # 32 # scenario1)"
    and n2: "\<not> prefix (lit ''  } catch ('') (32 # scenario1)"
    by (simp_all add: scenario1_def lit_def)
  show ?thesis
    unfolding e by (simp add: scan_skip[OF n1] scan_skip[OF n2] scenario1_scan)
qed

lemma no_catch_unmodified:
  assumes "\<not> sublist (lit ''  } catch ('') s"
  shows "sub_loop s n = (s, n)"
proof (rule sub_loop_unmodified, rule ballI)
  fix seg assume seg: "seg \<in> set (scan s)"
  show "\<not> modified seg"
  proof (cases seg)
    case (Occ m)
    obtain X W Y where "m = shape X W Y"
      using scan_Occ_shape seg Occ by blast
    then have "prefix (lit ''  } catch ('') (group0 m)"
      by (simp add: shape_def group0_def)
    moreover have "sublist (group0 m) s" using scan_Occ_sublist seg Occ by blast
    ultimately have "sublist (lit ''  } catch ('') s"
      by (meson prefix_imp_sublist sublist_order.order.trans)
    with assms show ?thesis by simp
  qed simp
qed

section \<open>A match cannot run over the inserted line\<close>

lemma walk:
  assumes "41 \<notin> set A" "41 \<notin> set A'"
    and "\<forall>c\<in>set W. is_space c" "\<forall>c\<in>set W'. is_space c"
    and "nl \<notin> set Y" "nl \<notin> set Y'"
    and "A @ lit '') {'' @ W @ [nl] @ lit ''    console.error('' @ Y @ [nl] @ v =
         A' @ lit '') {'' @ W' @ [nl] @ lit ''    console.error('' @ Y' @ [nl] @ v'"
  shows "A = A' \<and> W = W' \<and> Y = Y' \<and> v = v'"
proof -
  let ?CE = "lit ''    console.error(''"
  have 1: "A @ 41 # (32 # 123 # W @ [nl] @ ?CE @ Y @ [nl] @ v)
         = A' @ 41 # (32 # 123 # W' @ [nl] @ ?CE @ Y' @ [nl] @ v')"
    using assms(7) by (simp add: lit_def)
  note a = run_unique[OF assms(1,2) 1]
  have A: "A = A'" using a by simp
  have 2: "W @ [nl] @ ?CE @ (Y @ [nl] @ v) = W' @ [nl] @ ?CE @ (Y' @ [nl] @ v')"
    using a by simp
  note b = space_run_unique[OF assms(3,4) 2]
  have W: "W = W'" using b by simp
  have 3: "Y @ nl # v = Y' @ nl # v'" using b by simp
  note c = run_unique[OF assms(5,6) 3]
  show ?thesis using A W c by simp
qed

lemma not_inserted_res: "lit ''    res.status('' @ r \<noteq> inserted @ t"
  by (simp add: lit_def inserted_def)

lemma blocked:
  assumes "41 \<notin> set A" "\<forall>c\<in>set W. is_space c" "nl \<notin> set Y"
  shows "match_at (A @ lit '') {'' @ W @ [nl] @ lit ''    console.error('' @ Y @ [nl] @
                   inserted @ t) = None"
proof (cases "match_at (A @ lit '') {'' @ W @ [nl] @ lit ''    console.error('' @ Y @ [nl] @
                   inserted @ t)")
  case (Some a)
  obtain m r where a: "a = (m, r)" by (cases a)
  obtain X' W' Y' where ok: "shape_ok X' W' Y'" and m: "m = shape X' W' Y'"
    and e: "A @ lit '') {'' @ W @ [nl] @ lit ''    console.error('' @ Y @ [nl] @ inserted @ t
            = group0 m @ r"
    using Some unfolding a match_at_iff by blast
  have e': "A @ lit '') {'' @ W @ [nl] @ lit ''    console.error('' @ Y @ [nl] @ (inserted @ t) =
        (lit ''  } catch ('' @ X') @ lit '') {'' @ W' @ [nl] @ lit ''    console.error('' @ Y' @ [nl] @
        (lit ''    res.status('' @ r)"
    using e by (simp add: m shape_def group0_def)
  have "41 \<notin> set (lit ''  } catch ('' @ X')"
    using ok by (simp add: shape_ok_def lit_def)
  from walk[OF assms(1) this assms(2) _ assms(3) _ e'] ok
  have "inserted @ t = lit ''    res.status('' @ r" by (simp add: shape_ok_def)
  then show ?thesis using not_inserted_res by metis
qed simp

lemma no_match_in_Nil [simp]: "no_match_in [] v"
  by (simp add: no_match_in_def)

lemma no_match_in_Cons:
  "no_match_in (c # u) v \<longleftrightarrow> match_at (c # u @ v) = None \<and> no_match_in u v"
proof
  assume h: "no_match_in (c # u) v"
  have "match_at ((c # u) @ v) = None" using h unfolding no_match_in_def by blast
  moreover have "match_at (b @ v) = None" if "u = a @ b" "b \<noteq> []" for a b
    using h that unfolding no_match_in_def by (metis append_Cons)
  ultimately show "match_at (c # u @ v) = None \<and> no_match_in u v"
    by (simp add: no_match_in_def)
next
  assume h: "match_at (c # u @ v) = None \<and> no_match_in u v"
  show "no_match_in (c # u) v"
    unfolding no_match_in_def
  proof (intro allI impI)
    fix a b assume ab: "c # u = a @ b \<and> b \<noteq> []"
    show "match_at (b @ v) = None"
    proof (cases a)
      case Nil
      with ab h show ?thesis by auto
    next
      case (Cons x a')
      with ab have "u = a' @ b" by simp
      with ab h show ?thesis unfolding no_match_in_def by blast
    qed
  qed
qed

lemma no_match_in_append:
  "no_match_in (p @ q) v \<longleftrightarrow> no_match_in p (q @ v) \<and> no_match_in q v"
  by (induction p) (auto simp: no_match_in_Cons)

lemma sub_loop_no_match:
  "no_match_in u v \<Longrightarrow> sub_loop (u @ v) k = (u @ fst (sub_loop v k), snd (sub_loop v k))"
  by (induction u) (simp_all add: no_match_in_Cons sub_loop_Copy)

lemma no_match_no_space:
  "32 \<notin> set u \<Longrightarrow> no_match_in u v"
  by (induction u) (simp_all add: no_match_in_Cons match_at_no_prefix lit_def)

lemma no_match_spaces:
  assumes "\<forall>c\<in>set Z. is_space c"
  shows "no_match_in Z (99 # v)"
  unfolding no_match_in_def
proof (intro allI impI)
  fix a b assume ab: "Z = a @ b \<and> b \<noteq> []"
  then have sp: "\<forall>c\<in>set b. is_space c" using assms by auto
  have "\<not> prefix (lit ''  } catch ('') (b @ 99 # v)"
  proof (cases b)
    case Nil
    with ab show ?thesis by simp
  next
    case b1: (Cons x b')
    show ?thesis
    proof (cases b')
      case Nil
      with b1 show ?thesis by (simp add: lit_def)
    next
      case b2: (Cons y b'')
      show ?thesis
      proof (cases b'')
        case Nil
        with b1 b2 show ?thesis by (simp add: lit_def)
      next
        case (Cons z b''')
        with b1 b2 sp have "is_space z" by simp
        then have "z \<noteq> 125" by (auto simp: is_space_def)
        with b1 b2 Cons show ?thesis by (simp add: lit_def)
      qed
    qed
  qed
  then show "match_at (b @ 99 # v) = None" by (rule match_at_no_prefix)
qed

lemma nl_ok_Nil [simp]: "nl_ok [] v"
  by (simp add: nl_ok_def)

lemma nl_ok_Cons:
  "nl_ok (c # u) v \<longleftrightarrow> (c = nl \<longrightarrow> \<not> prefix inserted (u @ v)) \<and> nl_ok u v"
proof
  assume h: "nl_ok (c # u) v"
  have "\<not> prefix inserted (u @ v)" if "c = nl"
    using h that unfolding nl_ok_def by (metis append_Nil)
  moreover have "\<not> prefix inserted (b @ v)" if "u = a @ nl # b" for a b
    using h that unfolding nl_ok_def by (metis append_Cons)
  ultimately show "(c = nl \<longrightarrow> \<not> prefix inserted (u @ v)) \<and> nl_ok u v"
    by (simp add: nl_ok_def)
next
  assume h: "(c = nl \<longrightarrow> \<not> prefix inserted (u @ v)) \<and> nl_ok u v"
  show "nl_ok (c # u) v"
    unfolding nl_ok_def
  proof (intro allI impI)
    fix a b assume ab: "c # u = a @ nl # b"
    show "\<not> prefix inserted (b @ v)"
    proof (cases a)
      case Nil
      with ab h show ?thesis by auto
    next
      case (Cons x a')
      with ab have "u = a' @ nl # b" by simp
      with h show ?thesis unfolding nl_ok_def by blast
    qed
  qed
qed

lemma nl_ok_append:
  "nl_ok (p @ q) v \<longleftrightarrow> nl_ok p (q @ v) \<and> nl_ok q v"
  by (induction p) (auto simp: nl_ok_Cons)

lemma nl_ok_no_nl: "nl \<notin> set u \<Longrightarrow> nl_ok u v"
  by (induction u) (simp_all add: nl_ok_Cons)

lemma inserted_split:
  "inserted = lit ''    await logRouteError(error, req'' @ 41 # 46 # lit ''catch(() => {});'' @ [nl]"
  by (simp add: inserted_def lit_def)

lemma not_inserted_paren:
  assumes "41 \<notin> set X"
  shows "\<not> prefix inserted (X @ 41 # 32 # v)"
proof
  assume "prefix inserted (X @ 41 # 32 # v)"
  then obtain z where z: "X @ 41 # 32 # v = inserted @ z" by (auto simp: prefix_def)
  let ?P = "lit ''    await logRouteError(error, req''"
  have e: "X @ 41 # (32 # v) = ?P @ 41 # (46 # lit ''catch(() => {});'' @ [nl] @ z)"
    using z unfolding inserted_split by simp
  have "41 \<notin> set ?P" by (simp add: lit_def)
  from run_unique[OF assms this e] show False by simp
qed

lemma not_inserted_spaces:
  assumes "\<forall>c\<in>set W. is_space c"
  shows "\<not> prefix inserted (W @ nl # v)"
proof
  assume "prefix inserted (W @ nl # v)"
  then obtain z where z: "W @ nl # v = inserted @ z" by (auto simp: prefix_def)
  have "takeWhile is_space (inserted @ z) = [32, 32, 32, 32]"
    by (simp add: inserted_def lit_def is_space_def)
  moreover have "takeWhile is_space (W @ nl # v) = W @ nl # takeWhile is_space v"
    using assms by (simp add: takeWhile_append2 is_space_def)
  ultimately have "W @ nl # takeWhile is_space v = [32, 32, 32, 32]" using z by simp
  then have "nl \<in> set [32, 32, 32, 32::nat]" by (metis in_set_conv_decomp)
  then show False by simp
qed

lemma nl_ok_paren: "41 \<notin> set X \<Longrightarrow> nl_ok X (41 # 32 # v)"
  unfolding nl_ok_def using not_inserted_paren by auto

lemma nl_ok_spaces: "\<forall>c\<in>set W. is_space c \<Longrightarrow> nl_ok W (nl # v)"
  unfolding nl_ok_def using not_inserted_spaces by auto

lemma nl_ok_shape:
  assumes "shape_ok X W Y"
  shows "nl_ok (group0 (shape X W Y)) r"
proof -
  have X: "41 \<notin> set X" and W: "\<forall>c\<in>set W. is_space c" and Y: "nl \<notin> set Y"
    using assms by (simp_all add: shape_ok_def)
  have 1: "nl_ok (lit ''  } catch ('') v" for v
    by (rule nl_ok_no_nl) (simp add: lit_def)
  have 2: "nl_ok X (lit '') {'' @ v)" for v
    using nl_ok_paren[OF X] by (simp add: lit_def)
  have 3: "nl_ok (lit '') {'') v" for v
    by (rule nl_ok_no_nl) (simp add: lit_def)
  have 4: "nl_ok W ([nl] @ v)" for v
    using nl_ok_spaces[OF W] by simp
  have 5: "nl_ok [nl] (lit ''    console.error('' @ v)" for v
    by (simp add: nl_ok_Cons lit_def inserted_def)
  have 6: "nl_ok (lit ''    console.error('') v" for v
    by (rule nl_ok_no_nl) (simp add: lit_def)
  have 7: "nl_ok Y v" for v
    by (rule nl_ok_no_nl) (rule Y)
  have 8: "nl_ok [nl] (lit ''    res.status('' @ v)" for v
    by (simp add: nl_ok_Cons lit_def inserted_def)
  have 9: "nl_ok (lit ''    res.status('') v" for v
    by (rule nl_ok_no_nl) (simp add: lit_def)
  show ?thesis
    unfolding shape_def group0_def rmatch.simps nl_ok_append
    using 1 2 3 4 5 6 7 8 9 by (simp only: append_assoc simp_thms)
qed

section \<open>The output as an augmented input\<close>

lemma aug_append: "aug s t \<Longrightarrow> aug (p @ s) (p @ t)"
  by (induction p) (auto intro: aug.intros)

lemma aug_scan: "aug s (concat (map emit (scan s)))"
proof (induction s rule: scan.induct)
  case (1 s)
  show ?case
  proof (cases s rule: scan_cases)
    case Nil
    then show ?thesis by (simp add: aug_Nil)
  next
    case (Copy c cs)
    with 1(1) show ?thesis by (simp add: aug_Copy)
  next
    case (Occ m rest)
    have IH: "aug rest (concat (map emit (scan rest)))" using 1(2) Occ(1) by simp
    show ?thesis
    proof (cases "exempt (group0 m)")
      case True
      then show ?thesis using Occ IH by (simp add: replacement_def aug_append)
    next
      case False
      obtain X W Y where m: "m = shape X W Y"
        using Occ(1) unfolding match_at_iff by blast
      let ?p = "group1 m @ lit ''    console.error('' @ Y"
      let ?t = "concat (map emit (scan rest))"
      have "aug (lit ''    res.status('' @ rest) (lit ''    res.status('' @ ?t)"
        using IH by (rule aug_append)
      then have "aug (nl # lit ''    res.status('' @ rest) (nl # inserted @ lit ''    res.status('' @ ?t)"
        by (rule aug_Ins)
      then have "aug (?p @ nl # lit ''    res.status('' @ rest)
                     (?p @ nl # inserted @ lit ''    res.status('' @ ?t)"
        by (rule aug_append)
      moreover have "s = ?p @ nl # lit ''    res.status('' @ rest"
        using Occ(2) by (simp add: m shape_def group0_def)
      moreover have "concat (map emit (scan s)) = ?p @ nl # inserted @ lit ''    res.status('' @ ?t"
        using Occ(3) False by (simp add: replacement_def m shape_def)
      ultimately show ?thesis by simp
    qed
  qed
qed

lemma aug_Cons_cases:
  assumes "aug s (c # u)"
  shows "(\<exists>s1. s = c # s1 \<and> aug s1 u) \<or>
         (c = nl \<and> (\<exists>s1 t1. s = nl # s1 \<and> u = inserted @ t1 \<and> aug s1 t1))"
  using assms by (cases rule: aug.cases) auto

lemma aug_copy_prefix:
  "aug s (p @ t) \<Longrightarrow> nl_ok p t \<Longrightarrow> \<exists>s'. s = p @ s' \<and> aug s' t"
proof (induction p arbitrary: s)
  case Nil
  then show ?case by simp
next
  case (Cons c p)
  have ok: "nl_ok p t" and hd: "c = nl \<longrightarrow> \<not> prefix inserted (p @ t)"
    using Cons.prems(2) by (simp_all add: nl_ok_Cons)
  from Cons.prems(1) have "aug s (c # (p @ t))" by simp
  from aug_Cons_cases[OF this] show ?case
  proof
    assume "\<exists>s1. s = c # s1 \<and> aug s1 (p @ t)"
    then obtain s1 where s: "s = c # s1" and a: "aug s1 (p @ t)" by blast
    from Cons.IH[OF a ok] obtain s' where "s1 = p @ s'" "aug s' t" by blast
    with s show ?thesis by simp
  next
    assume "c = nl \<and> (\<exists>s1 t1. s = nl # s1 \<and> p @ t = inserted @ t1 \<and> aug s1 t1)"
    then have "c = nl" "prefix inserted (p @ t)" by (auto simp: prefix_def)
    with hd show ?thesis by simp
  qed
qed

lemma match_at_aug:
  assumes "aug s t" and "match_at s = None"
  shows "match_at t = None"
proof (cases "match_at t")
  case (Some a)
  obtain m r where a: "a = (m, r)" by (cases a)
  obtain X W Y where ok: "shape_ok X W Y" and m: "m = shape X W Y" and t: "t = group0 m @ r"
    using Some unfolding a match_at_iff by blast
  have "nl_ok (group0 m) r" unfolding m using ok by (rule nl_ok_shape)
  with assms(1) obtain s' where "s = group0 m @ s'"
    using aug_copy_prefix[of s "group0 m" r] unfolding t by blast
  then have "match_at s = Some (m, s')" using ok m match_at_shapeI by blast
  with assms(2) show ?thesis by simp
qed simp

section \<open>No match starts inside a replaced occurrence\<close>

lemma no_match_in_param:
  assumes "41 \<notin> set X" "\<forall>c\<in>set W. is_space c" "nl \<notin> set Y"
  shows "no_match_in X (lit '') {'' @ W @ [nl] @ lit ''    console.error('' @ Y @ [nl] @
                        inserted @ t)"
  unfolding no_match_in_def
proof (intro allI impI)
  fix a b assume "X = a @ b \<and> b \<noteq> []"
  then have "41 \<notin> set b" using assms(1) by auto
  from blocked[OF this assms(2,3)]
  show "match_at (b @ lit '') {'' @ W @ [nl] @ lit ''    console.error('' @ Y @ [nl] @
                        inserted @ t) = None" .
qed

lemma no_match_in_line:
  assumes "nl \<notin> set Y"
  shows "no_match_in Y (nl # inserted @ t)"
  unfolding no_match_in_def
proof (intro allI impI)
  fix a b assume ab: "Y = a @ b \<and> b \<noteq> []"
  then have nb: "nl \<notin> set b" using assms by auto
  show "match_at (b @ nl # inserted @ t) = None"
  proof (cases "match_at (b @ nl # inserted @ t)")
    case (Some x)
    obtain m r where x: "x = (m, r)" by (cases x)
    obtain X' W' Y' where ok: "shape_ok X' W' Y'" and m: "m = shape X' W' Y'"
      and e: "b @ nl # inserted @ t = group0 m @ r"
      using Some unfolding x match_at_iff by blast
    have "nl \<in> set (group0 m)" by (simp add: m shape_def group0_def)
    then obtain a' b' where g: "group0 m = a' @ nl # b'" and na: "nl \<notin> set a'"
      by (meson split_list_first)
    have "b @ nl # (inserted @ t) = a' @ nl # (b' @ r)" using e g by simp
    from run_unique[OF nb na this] have "inserted @ t = b' @ r" by simp
    then have "prefix inserted (b' @ r)" by (metis prefixI)
    moreover have "nl_ok (group0 m) r" unfolding m using ok by (rule nl_ok_shape)
    ultimately show ?thesis using g unfolding nl_ok_def by blast
  qed simp
qed

lemma no_match_in_literals:
  "no_match_in (lit '' } catch ('') v"
  "no_match_in (lit '') {'') v"
  "no_match_in (lit ''console.error('') v"
  "no_match_in [nl] v"
  "no_match_in inserted v"
  "no_match_in (lit ''    res.status('') v"
  by (simp_all add: lit_def inserted_def no_match_in_Cons match_at_no_prefix)

lemma no_match_in_replaced:
  assumes "shape_ok X W Y" and m: "m = shape X W Y"
  shows "no_match_in (group1 m @ group2 m @ inserted @ group3 m) t"
proof -
  have X: "41 \<notin> set X" and W: "\<forall>c\<in>set W. is_space c" and Y: "nl \<notin> set Y"
    using assms(1) by (simp_all add: shape_ok_def)
  define Z where "Z = W @ [nl, 32, 32, 32, 32]"
  let ?CE' = "lit ''console.error(''"
  let ?v6 = "[nl] @ inserted @ lit ''    res.status('' @ t"
  let ?v5 = "Y @ ?v6"
  let ?v4 = "?CE' @ ?v5"
  let ?v3 = "Z @ ?v4"
  let ?v2 = "lit '') {'' @ ?v3"
  let ?v1 = "X @ ?v2"
  have e: "?v3 = W @ [nl] @ lit ''    console.error('' @ Y @ [nl] @ inserted @ lit ''    res.status('' @ t"
    by (simp add: lit_def Z_def)
  have 0: "match_at (lit ''  } catch ('' @ ?v1) = None"
  proof -
    have "41 \<notin> set (lit ''  } catch ('' @ X)" using X by (simp add: lit_def)
    from blocked[OF this W Y, of "lit ''    res.status('' @ t"] show ?thesis
      unfolding e by simp
  qed
  have 1: "no_match_in (lit ''  } catch ('') ?v1"
  proof -
    have "lit ''  } catch ('' = 32 # lit '' } catch (''" by (simp add: lit_def)
    then show ?thesis using 0 no_match_in_literals(1)[of ?v1]
      by (simp add: no_match_in_Cons)
  qed
  have 2: "no_match_in X ?v2"
    unfolding e using no_match_in_param[OF X W Y] by simp
  have 3: "no_match_in (lit '') {'') ?v3" by (rule no_match_in_literals)
  have 4: "no_match_in Z ?v4"
  proof -
    have "\<forall>c\<in>set Z. is_space c" using W by (simp add: is_space_def Z_def)
    from no_match_spaces[OF this] show ?thesis by (simp add: lit_def)
  qed
  have 5: "no_match_in ?CE' ?v5" by (rule no_match_in_literals)
  have 6: "no_match_in Y ?v6" using no_match_in_line[OF Y] by simp
  have 7: "no_match_in [nl] (inserted @ lit ''    res.status('' @ t)" by (rule no_match_in_literals)
  have 8: "no_match_in inserted (lit ''    res.status('' @ t)" by (rule no_match_in_literals)
  have 9: "no_match_in (lit ''    res.status('') t" by (rule no_match_in_literals)
  have "no_match_in (lit ''  } catch ('' @ X @ lit '') {'' @ Z @ ?CE' @ Y @ [nl] @ inserted @
          lit ''    res.status('') t"
    unfolding no_match_in_append using 1 2 3 4 5 6 7 8 9 by (simp only: append_assoc simp_thms)
  moreover have "group1 m @ group2 m @ inserted @ group3 m =
      lit ''  } catch ('' @ X @ lit '') {'' @ Z @ ?CE' @ Y @ [nl] @ inserted @ lit ''    res.status(''"
    by (simp add: m shape_def lit_def Z_def)
  ultimately show ?thesis by simp
qed

lemma sub_loop_fixed:
  "sub_loop (concat (map emit (scan s))) k = (concat (map emit (scan s)), k)"
proof (induction s arbitrary: k rule: scan.induct)
  case (1 s)
  show ?case
  proof (cases s rule: scan_cases)
    case Nil
    then show ?thesis by simp
  next
    case (Copy c cs)
    have IH: "sub_loop (concat (map emit (scan cs))) k = (concat (map emit (scan cs)), k)"
      using 1(1) Copy by simp
    have "match_at (concat (map emit (scan s))) = None"
      using aug_scan Copy(2) by (rule match_at_aug)
    then have "match_at (c # concat (map emit (scan cs))) = None" using Copy(3) by simp
    then show ?thesis using Copy(3) IH by (simp add: sub_loop_Copy)
  next
    case (Occ m rest)
    let ?t = "concat (map emit (scan rest))"
    have IH: "sub_loop ?t k = (?t, k)" for k using 1(2) Occ(1) by simp
    obtain X W Y where ok: "shape_ok X W Y" and m: "m = shape X W Y"
      using Occ(1) unfolding match_at_iff by blast
    show ?thesis
    proof (cases "exempt (group0 m)")
      case True
      have "match_at (group0 m @ ?t) = Some (m, ?t)"
        using ok m match_at_shapeI by blast
      then show ?thesis using True Occ(3) IH
        by (simp add: sub_loop_Occ replacement_def)
    next
      case False
      let ?R = "group1 m @ group2 m @ inserted @ group3 m"
      have "no_match_in ?R ?t" using ok m by (rule no_match_in_replaced)
      from sub_loop_no_match[OF this, of k] have "sub_loop (?R @ ?t) k = (?R @ ?t, k)"
        by (simp add: IH)
      then show ?thesis using False Occ(3) by (simp add: replacement_def)
    qed
  qed
qed

lemma sub_loop_idem: "sub_loop (fst (sub_loop s n)) k = (fst (sub_loop s n), k)"
  using sub_loop_fixed[of s k] by (simp add: sub_loop_scan[of s n])

section \<open>Lines\<close>

lemma lines_of_line: "nl \<notin> set l \<Longrightarrow> lines_of (l @ nl # t) = l # lines_of t"
  by (induction l) simp_all

lemma inserted_line_nl: "inserted = inserted_line @ [nl]" "nl \<notin> set inserted_line"
  by (simp_all add: inserted_def inserted_line_def lit_def)

lemma aug_lines:
  "aug s t \<Longrightarrow>
   \<exists>k h ts tt. lines_of s = h # ts \<and> lines_of t = h # tt \<and>
      tt \<in> shuffles ts (replicate k inserted_line) \<and>
      length t = length s + k * length inserted"
proof (induction rule: aug.induct)
  case aug_Nil
  show ?case by (rule exI[of _ 0]) simp
next
  case (aug_Copy s t c)
  then obtain k h ts tt where h: "lines_of s = h # ts" "lines_of t = h # tt"
    "tt \<in> shuffles ts (replicate k inserted_line)" "length t = length s + k * length inserted"
    by blast
  show ?case
  proof (cases "c = nl")
    case True
    have "h # tt \<in> shuffles (h # ts) (replicate k inserted_line)"
      using h(3) by (rule Cons_in_shuffles_leftI)
    with True h show ?thesis
      by (intro exI[of _ k] exI[of _ "[]"] exI[of _ "h # ts"] exI[of _ "h # tt"]) simp
  next
    case False
    with h show ?thesis
      by (intro exI[of _ k] exI[of _ "c # h"] exI[of _ ts] exI[of _ tt]) simp
  qed
next
  case (aug_Ins s t)
  then obtain k h ts tt where h: "lines_of s = h # ts" "lines_of t = h # tt"
    "tt \<in> shuffles ts (replicate k inserted_line)" "length t = length s + k * length inserted"
    by blast
  have "h # tt \<in> shuffles (h # ts) (replicate k inserted_line)"
    using h(3) by (rule Cons_in_shuffles_leftI)
  then have "inserted_line # h # tt \<in> shuffles (h # ts) (replicate (Suc k) inserted_line)"
    by (simp add: Cons_in_shuffles_rightI)
  moreover have "lines_of (nl # inserted @ t) = [] # inserted_line # h # tt"
    using lines_of_line[OF inserted_line_nl(2), of t] h(2) by (simp add: inserted_line_nl(1))
  ultimately show ?case using h
    by (intro exI[of _ "Suc k"] exI[of _ "[]"] exI[of _ "h # ts"] exI[of _ "inserted_line # h # tt"])
       simp
qed

lemma shuffles_subseq: "zs \<in> shuffles xs ys \<Longrightarrow> subseq xs zs"
  by (induction xs ys arbitrary: zs rule: shuffles.induct) auto

section \<open>Two runs\<close>

lemma add_error_logging_Inr_world:
  assumes "files w p = Some s" and "add_error_logging_to_file p w = (Inr k, w1)"
  shows "p \<notin> unreadable w \<and> unreadable w1 = unreadable w \<and>
         files w1 p = Some (fst (sub_loop s 0))"
proof (cases "p \<in> unreadable w")
  case True
  with assms add_error_logging_unreadable show ?thesis by simp
next
  case False
  show ?thesis
  proof (cases "fst (sub_loop s 0) = s")
    case True
    with False assms add_error_logging_result[OF assms(1) False] show ?thesis by auto
  next
    case ne: False
    with False assms add_error_logging_result[OF assms(1) False] show ?thesis
      by (auto split: if_splits)
  qed
qed

lemma scenario1_run:
  "add_error_logging_to_file routes_js (world_with routes_js scenario1) =
     (Inr 1, \<lparr>files = [routes_js \<mapsto> scenario1_out], unreadable = {}, readonly = {},
              stdout = [9989] @ lit '' Added error logging to 1 catch blocks in routes.js'' @ [nl],
              ops = [ReadOp routes_js, WriteOp routes_js scenario1_out]\<rparr>)"
proof -
  have h1: "files (world_with routes_js scenario1) routes_js = Some scenario1"
    and h0: "routes_js \<notin> unreadable (world_with routes_js scenario1)"
    by (simp_all add: world_with_def)
  show ?thesis
    using scenario1_changed
    by (simp add: add_error_logging_result[OF h1 h0] scenario1_sub)
       (simp add: world_with_def str_nat.simps routes_js_def lit_def)
qed

section \<open>Claims\<close>

text \<open>
  C9. Usage error: when the program is started without a path argument (fewer than two
  entries in \<open>argv\<close>), it prints the usage message and ends with exit status 1; no
  file is read or written: of the world only the standard output changes.
\<close>

theorem usage_error:
  "length argv < 2 \<Longrightarrow>
   main argv w =
     (Exit 1, w\<lparr>stdout := stdout w @ lit ''Usage: python3 add-error-logging.py <filepath>'' @ [nl]\<rparr>)"
  by (simp add: main_def print_def)

theorem usage_error_witness:
  "main [lit ''add-error-logging.py'']
        \<lparr>files = Map.empty, unreadable = {}, readonly = {}, stdout = [], ops = []\<rparr> =
     (Exit 1, \<lparr>files = Map.empty, unreadable = {}, readonly = {},
               stdout = lit ''Usage: python3 add-error-logging.py <filepath>'' @ [nl], ops = []\<rparr>)"
  using usage_error[of "[lit ''add-error-logging.py'']"
      "\<lparr>files = Map.empty, unreadable = {}, readonly = {}, stdout = [], ops = []\<rparr>"]
  by simp

text \<open>
  C2. Insertion correctness: for every occurrence \<open>m\<close> that the scan of a text \<open>s\<close> finds and
  that contains neither exemption marker, the output is the input with exactly one line
  added at that occurrence, between group 2 (the console.error line, which ends in a
  newline) and group 3 (the start of the res.status line); the added line is four spaces,
  \<open>await logRouteError(error, req).catch(() => {});\<close> and a newline. What precedes and
  what follows the occurrence is rendered on its own.
\<close>

theorem insertion_correctness:
  assumes "scan s = pre @ Occ m # post" and "\<not> exempt (group0 m)"
  shows "s = concat (map raw pre) @ group1 m @ group2 m @ group3 m @ concat (map raw post) \<and>
         fst (sub_loop s n) =
           concat (map emit pre) @ group1 m @ group2 m @
           lit ''    await logRouteError(error, req).catch(() => {});'' @ [nl] @
           group3 m @ concat (map emit post) \<and>
         (\<exists>Y. Y \<noteq> [] \<and> nl \<notin> set Y \<and> group2 m = lit ''    console.error('' @ Y @ [nl]) \<and>
         group3 m = lit ''    res.status(''"
proof -
  have 1: "s = concat (map raw pre) @ group1 m @ group2 m @ group3 m @ concat (map raw post)"
    using scan_split_raw[OF assms(1)] by (simp add: group0_def)
  have 2: "fst (sub_loop s n) =
           concat (map emit pre) @ group1 m @ group2 m @
           lit ''    await logRouteError(error, req).catch(() => {});'' @ [nl] @
           group3 m @ concat (map emit post)"
    using assms by (simp add: sub_loop_scan replacement_def inserted_def)
  obtain X W Y where "shape_ok X W Y" "m = shape X W Y"
    using scan_at_Occ[OF assms(1)] unfolding match_at_iff by blast
  then have 3: "(\<exists>Y. Y \<noteq> [] \<and> nl \<notin> set Y \<and> group2 m = lit ''    console.error('' @ Y @ [nl]) \<and>
         group3 m = lit ''    res.status(''"
    by (auto simp: shape_ok_def shape_def)
  from 1 2 3 show ?thesis by blast
qed

text \<open>
  The scenario of the specification: one catch block, one inserted line.
\<close>

theorem insertion_correctness_witness:
  "scan scenario1 = [] @ Occ scenario1_match # map Copy tail_text \<and>
   \<not> exempt (group0 scenario1_match) \<and>
   fst (sub_loop scenario1 0) =
     lit ''  } catch (error) {'' @ [nl] @ lit ''    console.error('x');'' @ [nl] @
     lit ''    await logRouteError(error, req).catch(() => {});'' @ [nl] @
     lit ''    res.status('' @ tail_text"
proof -
  have h1: "scan scenario1 = [] @ Occ scenario1_match # map Copy tail_text"
    by (simp add: scenario1_scan)
  note h2 = scenario1_not_exempt
  show ?thesis
    using h1 h2 insertion_correctness[OF h1 h2, of 0] by (simp add: scenario1_match_def)
qed

text \<open>
  C3. Exemption respect: for every occurrence \<open>m\<close> that the scan finds and whose span
  contains \<open>logRouteError\<close> or \<open>logCriticalError\<close>, the span stands unchanged in the
  output, nothing is inserted at it and the counter is not incremented for it.
\<close>

theorem exemption_respect:
  assumes "scan s = pre @ Occ m # post" and "exempt (group0 m)"
  shows "s = concat (map raw pre) @ group0 m @ concat (map raw post) \<and>
         fst (sub_loop s n) = concat (map emit pre) @ group0 m @ concat (map emit post) \<and>
         snd (sub_loop s n) = n + length (filter modified pre) + length (filter modified post)"
  using assms scan_split_raw[OF assms(1)] by (simp add: sub_loop_scan replacement_def)

text \<open>
  A catch block that already calls \<open>logRouteError\<close> is left as it is.
\<close>

theorem exemption_respect_witness:
  "scan scenario3 = [] @ Occ scenario3_match # map Copy tail_text \<and>
   exempt (group0 scenario3_match) \<and>
   scenario3 = group0 scenario3_match @ tail_text \<and>
   sub_loop scenario3 0 = (group0 scenario3_match @ tail_text, 0)"
proof -
  have h1: "scan scenario3 = [] @ Occ scenario3_match # map Copy tail_text"
    by (simp add: scenario3_scan)
  note h2 = scenario3_exempt
  show ?thesis
    using h1 h2 exemption_respect[OF h1 h2, of 0] by (simp add: prod_eq_iff)
qed

text \<open>
  C4. When \<open>add_error_logging_to_file\<close> returns a count \<open>k\<close> for a file of content \<open>s\<close>:
  \<open>k\<close> is 0 exactly when the transformed text equals \<open>s\<close>; when \<open>k\<close> is 0 the file is read
  and not written; when \<open>k\<close> is not 0 the file is read and then overwritten with the
  transformed text.
\<close>

theorem count_zero_iff_unchanged:
  assumes "files w p = Some s" and "add_error_logging_to_file p w = (Inr k, w')"
  shows "(k = 0 \<longleftrightarrow> fst (sub_loop s 0) = s) \<and>
         (k = 0 \<longrightarrow> files w' = files w \<and> ops w' = ops w @ [ReadOp p]) \<and>
         (k \<noteq> 0 \<longrightarrow> files w' = (files w)(p \<mapsto> fst (sub_loop s 0)) \<and>
                    ops w' = ops w @ [ReadOp p, WriteOp p (fst (sub_loop s 0))])"
  using add_error_logging_Inr[OF assms] count_zero_iff[of s] by (auto split: if_splits)

text \<open>
  The first scenario: one modification, the file is overwritten.
\<close>

theorem count_zero_iff_unchanged_witness:
  "files (world_with routes_js scenario1) routes_js = Some scenario1 \<and>
   add_error_logging_to_file routes_js (world_with routes_js scenario1) =
     (Inr 1, \<lparr>files = [routes_js \<mapsto> scenario1_out], unreadable = {}, readonly = {},
              stdout = [9989] @ lit '' Added error logging to 1 catch blocks in routes.js'' @ [nl],
              ops = [ReadOp routes_js, WriteOp routes_js scenario1_out]\<rparr>) \<and>
   fst (sub_loop scenario1 0) \<noteq> scenario1"
proof -
  have h1: "files (world_with routes_js scenario1) routes_js = Some scenario1"
    by (simp add: world_with_def)
  have h0: "routes_js \<notin> unreadable (world_with routes_js scenario1)"
    by (simp add: world_with_def)
  have h2: "add_error_logging_to_file routes_js (world_with routes_js scenario1) =
     (Inr 1, \<lparr>files = [routes_js \<mapsto> scenario1_out], unreadable = {}, readonly = {},
              stdout = [9989] @ lit '' Added error logging to 1 catch blocks in routes.js'' @ [nl],
              ops = [ReadOp routes_js, WriteOp routes_js scenario1_out]\<rparr>)"
    using scenario1_changed
    by (simp add: add_error_logging_result[OF h1 h0] scenario1_sub)
       (simp add: world_with_def str_nat.simps routes_js_def lit_def)
  show ?thesis
    using h1 h2 count_zero_iff_unchanged[OF h1 h2] by (simp add: scenario1_sub)
qed

text \<open>
  C5. Non-overlap counting: the returned count is the number of occurrences of the scan
  that contain no exemption marker. The segments of the scan partition the text, so the
  occurrences do not overlap; every occurrence is a match of the pattern at its position,
  and at every position that the scan copies the pattern does not match, so the scan is
  the one from left to right.
\<close>

theorem non_overlap_count:
  assumes "files w p = Some s" and "add_error_logging_to_file p w = (Inr k, w')"
  shows "k = length (filter modified (scan s)) \<and>
         concat (map raw (scan s)) = s \<and>
         (\<forall>pre seg post. scan s = pre @ seg # post \<longrightarrow>
            match_at (raw seg @ concat (map raw post)) =
              (case seg of Copy c \<Rightarrow> None | Occ m \<Rightarrow> Some (m, concat (map raw post))))"
proof -
  have "k = length (filter modified (scan s))"
    using add_error_logging_Inr[OF assms] by (simp add: sub_loop_scan)
  moreover have "match_at (raw seg @ concat (map raw post)) =
              (case seg of Copy c \<Rightarrow> None | Occ m \<Rightarrow> Some (m, concat (map raw post)))"
    if "scan s = pre @ seg # post" for pre seg post
    using that scan_at_Occ scan_at_Copy by (cases seg) auto
  ultimately show ?thesis by (simp add: scan_raw)
qed

text \<open>
  The first scenario: one occurrence at the start of the text, count 1.
\<close>

theorem non_overlap_count_witness:
  "files (world_with routes_js scenario1) routes_js = Some scenario1 \<and>
   fst (add_error_logging_to_file routes_js (world_with routes_js scenario1)) = Inr 1 \<and>
   length (filter modified (scan scenario1)) = 1 \<and>
   scan scenario1 = [] @ Occ scenario1_match # map Copy tail_text \<and>
   match_at (group0 scenario1_match @ tail_text) = Some (scenario1_match, tail_text)"
proof -
  let ?w = "world_with routes_js scenario1"
  have h1: "files ?w routes_js = Some scenario1"
    by (simp add: world_with_def)
  have h0: "routes_js \<notin> unreadable ?w" "routes_js \<notin> readonly ?w"
    by (simp_all add: world_with_def)
  obtain w' where h2: "add_error_logging_to_file routes_js ?w = (Inr 1, w')"
    using scenario1_changed h0 by (simp add: add_error_logging_result[OF h1 h0(1)] scenario1_sub)
  have h3: "scan scenario1 = [] @ Occ scenario1_match # map Copy tail_text"
    by (simp add: scenario1_scan)
  note c = non_overlap_count[OF h1 h2]
  have a: "1 = length (filter modified (scan scenario1))"
    using c by blast
  have "match_at (raw (Occ scenario1_match) @ concat (map raw (map Copy tail_text))) =
          (case Occ scenario1_match of Copy c \<Rightarrow> None
           | Occ m \<Rightarrow> Some (m, concat (map raw (map Copy tail_text))))"
    using c h3 by blast
  then have b: "match_at (group0 scenario1_match @ tail_text) = Some (scenario1_match, tail_text)"
    by simp
  show ?thesis using h1 h2 h3 a b by simp
qed

text \<open>
  C6 as stated fails: with a blank line between the catch header and the console.error
  line the pattern still matches (\<open>\s*\<close> takes the newline of the header line, the
  literal newline is the blank line), and the line is inserted.
\<close>

theorem adjacency_counterexample:
  "sub_loop (lit ''  } catch (error) {'' @ [nl] @ [nl] @ lit ''    console.error('x');'' @ [nl] @
             lit ''    res.status(500).send();'' @ [nl]) 0 =
     (lit ''  } catch (error) {'' @ [nl] @ [nl] @ lit ''    console.error('x');'' @ [nl] @
      lit ''    await logRouteError(error, req).catch(() => {});'' @ [nl] @
      lit ''    res.status(500).send();'' @ [nl], 1)"
  using blank_line_not_exempt
  unfolding blank_line_text_def[symmetric]
  by (simp add: sub_loop_scan blank_line_scan replacement_def inserted_def filter_map
      blank_line_match_def tail_text_def lit_def)

text \<open>
  C6, amended: in every occurrence that the scan finds, group 1 is the catch header up to
  \<open>) {\<close>, then only whitespace (which may hold newlines, so blank lines, but no comment)
  up to a newline; group 2 is the console.error line, which follows at once, is one line
  and ends in its newline; group 3, the start of the res.status line, follows at once.
\<close>

theorem adjacency_amended:
  assumes "scan s = pre @ Occ m # post"
  shows "\<exists>X W Y. (\<forall>c\<in>set W. is_space c) \<and> Y \<noteq> [] \<and> nl \<notin> set Y \<and>
           group1 m = lit ''  } catch ('' @ X @ lit '') {'' @ W @ [nl] \<and>
           group2 m = lit ''    console.error('' @ Y @ [nl] \<and>
           group3 m = lit ''    res.status('' \<and>
           s = concat (map raw pre) @ group1 m @ group2 m @ group3 m @ concat (map raw post)"
proof -
  obtain X W Y where "shape_ok X W Y" "m = shape X W Y"
    using scan_at_Occ[OF assms] unfolding match_at_iff by blast
  moreover have "s = concat (map raw pre) @ group1 m @ group2 m @ group3 m @ concat (map raw post)"
    using scan_split_raw[OF assms] by (simp add: group0_def)
  ultimately show ?thesis
    unfolding shape_ok_def shape_def by (intro exI[of _ X] exI[of _ W] exI[of _ Y]) simp
qed

text \<open>
  The text with the blank line: the whitespace run is one newline.
\<close>

theorem adjacency_amended_witness:
  "scan blank_line_text = [] @ Occ blank_line_match # map Copy tail_text \<and>
   (\<exists>X W Y. (\<forall>c\<in>set W. is_space c) \<and> Y \<noteq> [] \<and> nl \<notin> set Y \<and>
      group1 blank_line_match = lit ''  } catch ('' @ X @ lit '') {'' @ W @ [nl] \<and>
      group2 blank_line_match = lit ''    console.error('' @ Y @ [nl] \<and>
      group3 blank_line_match = lit ''    res.status('' \<and>
      blank_line_text = group1 blank_line_match @ group2 blank_line_match @
                        group3 blank_line_match @ tail_text)"
proof -
  have h: "scan blank_line_text = [] @ Occ blank_line_match # map Copy tail_text"
    by (simp add: blank_line_scan)
  show ?thesis using h adjacency_amended[OF h] by simp
qed

text \<open>
  C7. No-op preservation: when the file can be read and every occurrence of the scan is
  exempt (in particular when there is none), the transformed text is the input and the
  count is 0; the function returns 0, prints the no-change message, and the file is read
  but not written: the files of the world stay as they are.
\<close>

theorem noop_preservation:
  assumes "files w p = Some s" and "p \<notin> unreadable w"
    and "\<forall>m. Occ m \<in> set (scan s) \<longrightarrow> exempt (group0 m)"
  shows "sub_loop s 0 = (s, 0) \<and>
         add_error_logging_to_file p w =
           (Inr 0, w\<lparr>stdout := stdout w @ [9197, 65039] @ lit ''  No changes needed for '' @ p @ [nl],
                     ops := ops w @ [ReadOp p]\<rparr>)"
proof -
  have "\<forall>seg\<in>set (scan s). \<not> modified seg"
  proof
    fix seg assume "seg \<in> set (scan s)"
    with assms(3) show "\<not> modified seg" by (cases seg) simp_all
  qed
  then have "sub_loop s 0 = (s, 0)" by (rule sub_loop_unmodified)
  then show ?thesis using add_error_logging_result[OF assms(1,2)] by simp
qed

text \<open>
  The scenario with the exemption marker.
\<close>

theorem noop_preservation_witness:
  "files (world_with routes_js scenario3) routes_js = Some scenario3 \<and>
   routes_js \<notin> unreadable (world_with routes_js scenario3) \<and>
   (\<exists>m. Occ m \<in> set (scan scenario3) \<and> exempt (group0 m)) \<and>
   sub_loop scenario3 0 = (scenario3, 0) \<and>
   add_error_logging_to_file routes_js (world_with routes_js scenario3) =
     (Inr 0, \<lparr>files = [routes_js \<mapsto> scenario3], unreadable = {}, readonly = {},
              stdout = [9197, 65039] @ lit ''  No changes needed for routes.js'' @ [nl],
              ops = [ReadOp routes_js]\<rparr>)"
proof -
  let ?w = "world_with routes_js scenario3"
  have h1: "files ?w routes_js = Some scenario3" and h2: "routes_js \<notin> unreadable ?w"
    by (simp_all add: world_with_def)
  have h3: "\<forall>m. Occ m \<in> set (scan scenario3) \<longrightarrow> exempt (group0 m)"
    using scenario3_exempt by (auto simp: scenario3_scan)
  have h4: "\<exists>m. Occ m \<in> set (scan scenario3) \<and> exempt (group0 m)"
    using scenario3_exempt by (auto simp: scenario3_scan)
  show ?thesis
    using h1 h2 h4 noop_preservation[OF h1 h2 h3]
    by (simp add: world_with_def routes_js_def lit_def)
qed

text \<open>
  C10 as stated fails: the pattern is not anchored at the start of a line, so a catch
  header indented by four spaces is matched from its third space on, and the line is
  inserted.
\<close>

theorem header_shape_counterexample:
  "sub_loop (lit ''    } catch (error) {'' @ [nl] @ lit ''    console.error('x');'' @ [nl] @
             lit ''    res.status(500).send();'' @ [nl]) 0 =
     (lit ''    } catch (error) {'' @ [nl] @ lit ''    console.error('x');'' @ [nl] @
      lit ''    await logRouteError(error, req).catch(() => {});'' @ [nl] @
      lit ''    res.status(500).send();'' @ [nl], 1)"
  using scenario1_not_exempt
  unfolding indented_text_def[symmetric]
  by (simp add: sub_loop_scan indented_scan replacement_def inserted_def filter_map
      scenario1_match_def tail_text_def lit_def)

text \<open>
  C10, amended: group 1 of every occurrence that the scan finds starts with two spaces, a
  closing brace, \<open> catch (\<close>, a non-empty run without a closing parenthesis and \<open>) {\<close>;
  the occurrence may start anywhere in a line. A text that nowhere holds two spaces, a
  closing brace and \<open> catch (\<close> is returned as it is, with the counter unchanged.
\<close>

theorem header_shape_amended:
  "(scan s = pre @ Occ m # post \<longrightarrow>
      (\<exists>X t. X \<noteq> [] \<and> 41 \<notin> set X \<and>
         group1 m = lit ''  } catch ('' @ X @ lit '') {'' @ t \<and>
         s = concat (map raw pre) @ group1 m @ group2 m @ group3 m @ concat (map raw post))) \<and>
   (\<not> sublist (lit ''  } catch ('') s \<longrightarrow> sub_loop s n = (s, n))"
proof (intro conjI impI)
  assume a: "scan s = pre @ Occ m # post"
  obtain X W Y where "shape_ok X W Y" "m = shape X W Y"
    using scan_at_Occ[OF a] unfolding match_at_iff by blast
  moreover have "s = concat (map raw pre) @ group1 m @ group2 m @ group3 m @ concat (map raw post)"
    using scan_split_raw[OF a] by (simp add: group0_def)
  ultimately show "\<exists>X t. X \<noteq> [] \<and> 41 \<notin> set X \<and>
         group1 m = lit ''  } catch ('' @ X @ lit '') {'' @ t \<and>
         s = concat (map raw pre) @ group1 m @ group2 m @ group3 m @ concat (map raw post)"
    unfolding shape_ok_def shape_def by (intro exI[of _ X] exI[of _ "W @ [nl]"]) simp
next
  assume "\<not> sublist (lit ''  } catch ('') s"
  then show "sub_loop s n = (s, n)" by (rule no_catch_unmodified)
qed

text \<open>
  The header indented by four spaces is matched after two copied spaces; the header
  without the closing brace is not matched.
\<close>

theorem header_shape_amended_witness:
  "scan indented_text = [Copy 32, Copy 32] @ Occ scenario1_match # map Copy tail_text \<and>
   (\<exists>X t. X \<noteq> [] \<and> 41 \<notin> set X \<and>
      group1 scenario1_match = lit ''  } catch ('' @ X @ lit '') {'' @ t \<and>
      indented_text = [32, 32] @ group1 scenario1_match @ group2 scenario1_match @
                      group3 scenario1_match @ tail_text) \<and>
   \<not> sublist (lit ''  } catch ('') no_brace_text \<and>
   sub_loop no_brace_text 0 = (no_brace_text, 0)"
proof -
  note h1 = indented_scan
  have h2: "\<not> sublist (lit ''  } catch ('') no_brace_text"
    by (simp add: no_brace_text_def lit_def sublist_code)
  show ?thesis
    using h1 h2 header_shape_amended[of indented_text "[Copy 32, Copy 32]" scenario1_match
        "map Copy tail_text" 0]
      header_shape_amended[of no_brace_text "[]" scenario1_match "[]" 0]
    by simp
qed

text \<open>
  C8. Insertion only: the lines of the input are a subsequence of the lines of the
  output, so every line of the input stands in the output unchanged and in its order;
  and the lines of the output are the lines of the input interleaved with as many copies
  of the inserted line as the counter reports, so nothing but that line is added.
\<close>

theorem insertion_only:
  "subseq (lines_of s) (lines_of (fst (sub_loop s 0))) \<and>
   lines_of (fst (sub_loop s 0)) \<in>
     shuffles (lines_of s)
       (replicate (snd (sub_loop s 0)) (lit ''    await logRouteError(error, req).catch(() => {});''))"
proof -
  let ?t = "fst (sub_loop s 0)"
  have "aug s ?t" using aug_scan[of s] by (simp add: sub_loop_scan)
  from aug_lines[OF this] obtain k h ts tt where h: "lines_of s = h # ts" "lines_of ?t = h # tt"
    "tt \<in> shuffles ts (replicate k inserted_line)" "length ?t = length s + k * length inserted"
    by blast
  have "k = snd (sub_loop s 0)"
    using h(4) length_sub_loop[of s 0] by (simp add: length_inserted)
  moreover have "h # tt \<in> shuffles (h # ts) (replicate k inserted_line)"
    using h(3) by (rule Cons_in_shuffles_leftI)
  ultimately have sh: "lines_of ?t \<in> shuffles (lines_of s) (replicate (snd (sub_loop s 0)) inserted_line)"
    using h by simp
  then have "subseq (lines_of s) (lines_of ?t)" by (rule shuffles_subseq)
  with sh show ?thesis unfolding inserted_line_def by simp
qed

text \<open>
  C1. Idempotence: when \<open>add_error_logging_to_file\<close> has returned a count for a file of
  content \<open>s\<close>, the file holds the transformed text; the transformation applied to that
  text returns it unchanged with count 0; and a second run of the function on the
  resulting world returns 0, prints the no-change message, reads the file and writes
  nothing.
\<close>

theorem idempotence:
  assumes "files w p = Some s" and "add_error_logging_to_file p w = (Inr k, w1)"
  shows "files w1 p = Some (fst (sub_loop s 0)) \<and>
         sub_loop (fst (sub_loop s 0)) 0 = (fst (sub_loop s 0), 0) \<and>
         add_error_logging_to_file p w1 =
           (Inr 0, w1\<lparr>stdout := stdout w1 @ [9197, 65039] @ lit ''  No changes needed for '' @ p @ [nl],
                      ops := ops w1 @ [ReadOp p]\<rparr>)"
proof -
  note a = add_error_logging_Inr_world[OF assms]
  have f: "files w1 p = Some (fst (sub_loop s 0))" and u: "p \<notin> unreadable w1"
    using a by simp_all
  have i: "sub_loop (fst (sub_loop s 0)) 0 = (fst (sub_loop s 0), 0)"
    by (rule sub_loop_idem)
  show ?thesis using f i add_error_logging_result[OF f u] by simp
qed

text \<open>
  The first scenario, run twice.
\<close>

theorem idempotence_witness:
  "files (world_with routes_js scenario1) routes_js = Some scenario1 \<and>
   add_error_logging_to_file routes_js (world_with routes_js scenario1) =
     (Inr 1, \<lparr>files = [routes_js \<mapsto> scenario1_out], unreadable = {}, readonly = {},
              stdout = [9989] @ lit '' Added error logging to 1 catch blocks in routes.js'' @ [nl],
              ops = [ReadOp routes_js, WriteOp routes_js scenario1_out]\<rparr>) \<and>
   sub_loop scenario1_out 0 = (scenario1_out, 0) \<and>
   add_error_logging_to_file routes_js
     \<lparr>files = [routes_js \<mapsto> scenario1_out], unreadable = {}, readonly = {},
      stdout = [9989] @ lit '' Added error logging to 1 catch blocks in routes.js'' @ [nl],
      ops = [ReadOp routes_js, WriteOp routes_js scenario1_out]\<rparr> =
     (Inr 0, \<lparr>files = [routes_js \<mapsto> scenario1_out], unreadable = {}, readonly = {},
              stdout = [9989] @ lit '' Added error logging to 1 catch blocks in routes.js'' @ [nl] @
                       [9197, 65039] @ lit ''  No changes needed for routes.js'' @ [nl],
              ops = [ReadOp routes_js, WriteOp routes_js scenario1_out, ReadOp routes_js]\<rparr>)"
proof -
  have h1: "files (world_with routes_js scenario1) routes_js = Some scenario1"
    by (simp add: world_with_def)
  note h2 = scenario1_run
  show ?thesis
    using h1 h2 idempotence[OF h1 h2]
    by (simp add: scenario1_sub routes_js_def lit_def)
qed

end
